theory Spec2Isabelle
  imports Main
begin

section \<open>Session caching of web3/_utils/request.py\<close>

text \<open>
  The module keeps two process-wide caches of HTTP sessions keyed by a string derived
  from the endpoint URI: \<open>_session_cache\<close>, an \<open>lru.LRU(8)\<close> of the third-party
  package, and \<open>_async_session_cache\<close>, a \<open>SessionCache(size=20)\<close> defined in the
  module itself over a \<open>collections.OrderedDict\<close>.

  Python objects are mutated in place; here every function takes the state it reads and
  returns the state it leaves, paired with its outcome. A raised exception is the
  \<open>Inl\<close> of the outcome, and the state beside it is the one the exception leaves behind.
\<close>

subsection \<open>Exceptions\<close>

text \<open>
  \<open>KeyError\<close> is what \<open>OrderedDict.popitem\<close> raises on an empty dictionary and what
  \<open>d[key]\<close> raises on a missing key. \<open>CloseError s\<close> stands for whatever exception
  the awaited \<open>close()\<close> of session \<open>s\<close> raises.
\<close>

type_synonym session = nat

datatype py_error = KeyError | CloseError session

subsection \<open>Dictionaries in insertion order\<close>

text \<open>
  An \<open>OrderedDict\<close> (and a plain \<open>dict\<close>, which iterates in insertion order too) is the
  list of its items, oldest first. Its keys are pairwise distinct: \<open>od_wf\<close>.
\<close>

type_synonym ('k, 'v) odict = "('k \<times> 'v) list"

definition od_wf :: "('k, 'v) odict \<Rightarrow> bool" where
  "od_wf d = distinct (map fst d)"

text \<open>\<open>key in d\<close>\<close>

definition od_contains :: "('k, 'v) odict \<Rightarrow> 'k \<Rightarrow> bool" where
  "od_contains d k = (k \<in> set (map fst d))"

text \<open>\<open>d[key]\<close>: the value, or KeyError.\<close>

definition od_getitem :: "('k, 'v) odict \<Rightarrow> 'k \<Rightarrow> py_error + 'v" where
  "od_getitem d k = (case map_of d k of None \<Rightarrow> Inl KeyError | Some v \<Rightarrow> Inr v)"

text \<open>
  \<open>d[key] = value\<close>: an existing key keeps its position and takes the new value, a new
  key goes to the end.
\<close>

fun od_setitem :: "'k \<Rightarrow> 'v \<Rightarrow> ('k, 'v) odict \<Rightarrow> ('k, 'v) odict" where
  "od_setitem k v [] = [(k, v)]"
| "od_setitem k v ((k', v') # d) =
     (if k' = k then (k, v) # d else (k', v') # od_setitem k v d)"

text \<open>The dictionary after \<open>d[k] = v\<close> for each \<open>(k, v)\<close> of a list, in order.\<close>

fun put_all :: "('k, 'v) odict \<Rightarrow> ('k \<times> 'v) list \<Rightarrow> ('k, 'v) odict" where
  "put_all e [] = e"
| "put_all e ((k, v) # xs) = put_all (od_setitem k v e) xs"

text \<open>
  \<open>d.popitem(last=False)\<close>: removes and returns the oldest item; KeyError when the
  dictionary is empty.
\<close>

definition od_popitem_first :: "('k, 'v) odict \<Rightarrow> py_error + (('k \<times> 'v) \<times> ('k, 'v) odict)" where
  "od_popitem_first d = (case d of [] \<Rightarrow> Inl KeyError | kv # d' \<Rightarrow> Inr (kv, d'))"

subsection \<open>SessionCache\<close>

text \<open>
  \<open>__init__(self, size)\<close> stores \<open>size\<close> (any Python int) and an empty OrderedDict.
\<close>

record 'v SessionCache =
  sc_size :: int
  sc_data :: "(string, 'v) odict"

definition SessionCache_init :: "int \<Rightarrow> 'v SessionCache" where
  "SessionCache_init n = \<lparr>sc_size = n, sc_data = []\<rparr>"

text \<open>
  The loop of \<open>cache\<close>:
  \<^verbatim>\<open>
  while len(self._data) >= self._size:
      if evicted_items is None:
          evicted_items = {}
      k, v = self._data.popitem(last=False)
      evicted_items[k] = v
  \<close>
  on the size, the dictionary and \<open>evicted_items\<close> (\<open>None\<close> or a dict). It returns the
  dictionary it leaves and either the exception of \<open>popitem\<close> or \<open>evicted_items\<close>.
\<close>

function evict_loop ::
  "int \<Rightarrow> (string, 'v) odict \<Rightarrow> (string, 'v) odict option
     \<Rightarrow> (string, 'v) odict \<times> (py_error + (string, 'v) odict option)" where
  "evict_loop n d ev =
     (if n \<le> int (length d) then
        (let ev1 = (case ev of None \<Rightarrow> [] | Some e \<Rightarrow> e) in
         case od_popitem_first d of
           Inl err \<Rightarrow> (d, Inl err)
         | Inr ((k, v), d') \<Rightarrow> evict_loop n d' (Some (od_setitem k v ev1)))
      else (d, Inr ev))"
  by pat_completeness auto
termination
  by (relation "measure (\<lambda>(n, d, ev). length d)")
     (auto simp: od_popitem_first_def split: list.splits)

declare evict_loop.simps [simp del]

text \<open>
  \<open>SessionCache.cache(key, value)\<close>: a key that is already present is only updated; a
  new key first runs the eviction loop. The result is \<open>evicted_items\<close>: \<open>None\<close> when
  the loop body never ran, otherwise the dict of the removed items.
\<close>

definition cache ::
  "'v SessionCache \<Rightarrow> string \<Rightarrow> 'v
     \<Rightarrow> 'v SessionCache \<times> (py_error + (string, 'v) odict option)" where
  "cache c key val =
     (if \<not> od_contains (sc_data c) key then
        (case evict_loop (sc_size c) (sc_data c) None of
           (d, Inl err) \<Rightarrow> (c\<lparr>sc_data := d\<rparr>, Inl err)
         | (d, Inr ev) \<Rightarrow> (c\<lparr>sc_data := od_setitem key val d\<rparr>, Inr ev))
      else (c\<lparr>sc_data := od_setitem key val (sc_data c)\<rparr>, Inr None))"

text \<open>\<open>get_cache_entry\<close>, \<open>__contains__\<close>, \<open>__len__\<close>\<close>

definition get_cache_entry ::
  "'v SessionCache \<Rightarrow> string \<Rightarrow> 'v SessionCache \<times> (py_error + 'v)" where
  "get_cache_entry c key = (c, od_getitem (sc_data c) key)"

definition contains :: "'v SessionCache \<Rightarrow> string \<Rightarrow> bool" where
  "contains c item = od_contains (sc_data c) item"

definition len :: "'v SessionCache \<Rightarrow> nat" where
  "len c = length (sc_data c)"

text \<open>
  A sequence of \<open>cache\<close> calls; the first exception ends it. The result lists what each
  call returned.
\<close>

fun cache_all ::
  "'v SessionCache \<Rightarrow> (string \<times> 'v) list
     \<Rightarrow> 'v SessionCache \<times> (py_error + (string, 'v) odict option list)" where
  "cache_all c [] = (c, Inr [])"
| "cache_all c ((k, v) # kvs) =
     (case cache c k v of
        (c1, Inl err) \<Rightarrow> (c1, Inl err)
      | (c1, Inr ev) \<Rightarrow>
          (case cache_all c1 kvs of
             (c2, Inl err) \<Rightarrow> (c2, Inl err)
           | (c2, Inr evs) \<Rightarrow> (c2, Inr (ev # evs))))"

subsection \<open>The default endpoint\<close>

text \<open>
  The process environment is a map from variable names to values, and
  \<open>os.environ.get(name, default)\<close> reads it. \<open>URI\<close> is a \<open>NewType\<close> of \<open>str\<close>: calling
  it returns its argument.
\<close>

definition environ_get :: "(string \<rightharpoonup> string) \<Rightarrow> string \<Rightarrow> string \<Rightarrow> string" where
  "environ_get env name dflt = (case env name of None \<Rightarrow> dflt | Some v \<Rightarrow> v)"

definition get_default_http_endpoint :: "(string \<rightharpoonup> string) \<Rightarrow> string" where
  "get_default_http_endpoint env =
     environ_get env ''WEB3_HTTP_PROVIDER_URI'' ''http://localhost:8545''"

subsection \<open>The synchronous cache: lru.LRU\<close>

text \<open>
  Modelled from the spec: \<open>lru.LRU\<close> is the class of a third-party package and is not
  part of the repository. The specification describes the structure behind the
  synchronous cache as a fixed-capacity mapping kept in recency order, which evicts the
  oldest entry on overflow and hands every entry it drops to the callback given at
  construction. Its overview orders entries by insertion and access; its data model says
  that reading or re-inserting an existing key leaves the key's position unchanged. The
  field \<open>lru_touch\<close> tells which of the two holds: when it is set, reading or writing a
  key makes it the most recent one. The items are listed oldest first, and a membership
  test never changes the order.
\<close>

record LRU =
  lru_size :: nat
  lru_touch :: bool
  lru_items :: "(string, session) odict"

definition lru_contains :: "LRU \<Rightarrow> string \<Rightarrow> bool" where
  "lru_contains l k = od_contains (lru_items l) k"

definition od_remove :: "'k \<Rightarrow> ('k, 'v) odict \<Rightarrow> ('k, 'v) odict" where
  "od_remove k d = filter (\<lambda>kv. fst kv \<noteq> k) d"

definition lru_getitem :: "LRU \<Rightarrow> string \<Rightarrow> LRU \<times> (py_error + session)" where
  "lru_getitem l k =
     (case map_of (lru_items l) k of
        None \<Rightarrow> (l, Inl KeyError)
      | Some v \<Rightarrow>
          (if lru_touch l then l\<lparr>lru_items := od_remove k (lru_items l) @ [(k, v)]\<rparr> else l,
           Inr v))"

text \<open>The items that stay when a new key is stored: all of them, or all but the oldest.\<close>

definition lru_kept :: "LRU \<Rightarrow> (string, session) odict" where
  "lru_kept l = (if lru_size l \<le> length (lru_items l) then tl (lru_items l) else lru_items l)"

text \<open>
  \<open>l[k] = v\<close>: returns the cache and the entries dropped, for the callback.
\<close>

definition lru_setitem :: "LRU \<Rightarrow> string \<Rightarrow> session \<Rightarrow> LRU \<times> (string, session) odict" where
  "lru_setitem l k v =
     (if od_contains (lru_items l) k then
        (if lru_touch l then l\<lparr>lru_items := od_remove k (lru_items l) @ [(k, v)]\<rparr>
         else l\<lparr>lru_items := od_setitem k v (lru_items l)\<rparr>, [])
      else
        (l\<lparr>lru_items := lru_kept l @ [(k, v)]\<rparr>,
         if lru_size l \<le> length (lru_items l) then take 1 (lru_items l) else []))"

subsection \<open>The module's state\<close>

text \<open>
  A session object is identified by the number of sessions constructed before it, so
  that two handles are the same object exactly when they are equal. The state of the
  module is its two caches; beside it the model keeps the number of sessions constructed
  so far and the list of sessions whose \<open>close()\<close> has been called, in call order.

  \<open>_async_session_cache_lock\<close> is taken on entry to the body of \<open>cache_async_session\<close>
  and released on every way out of it. The functions below describe one call that runs
  to its end without another one in between, where the lock is free before and after;
  it has no field of its own.
\<close>

record module_state =
  session_cache :: LRU
  async_session_cache :: "session SessionCache"
  sessions_constructed :: nat
  closed :: "session list"

definition initial_state :: module_state where
  "initial_state =
     \<lparr>session_cache = \<lparr>lru_size = 8, lru_touch = True, lru_items = []\<rparr>,
      async_session_cache = SessionCache_init 20,
      sessions_constructed = 0,
      closed = []\<rparr>"

text \<open>\<open>requests.Session()\<close> and \<open>ClientSession(raise_for_status=True)\<close>\<close>

definition new_session :: "module_state \<Rightarrow> session \<times> module_state" where
  "new_session w =
     (sessions_constructed w, w\<lparr>sessions_constructed := Suc (sessions_constructed w)\<rparr>)"

text \<open>
  \<open>_session_cache[cache_key] = session\<close>, with the callback \<open>_remove_session\<close>, which
  closes the session it is given.
\<close>

definition session_cache_setitem :: "module_state \<Rightarrow> string \<Rightarrow> session \<Rightarrow> module_state" where
  "session_cache_setitem w key s =
     (case lru_setitem (session_cache w) key s of
        (l, dropped) \<Rightarrow> w\<lparr>session_cache := l, closed := closed w @ map snd dropped\<rparr>)"

text \<open>\<open>_session_cache[cache_key]\<close>\<close>

definition session_cache_getitem ::
  "module_state \<Rightarrow> string \<Rightarrow> module_state \<times> (py_error + session)" where
  "session_cache_getitem w key =
     (case lru_getitem (session_cache w) key of
        (l, r) \<Rightarrow> (w\<lparr>session_cache := l\<rparr>, r))"

text \<open>
  \<open>generate_cache_key\<close> is imported from \<open>web3._utils.caching\<close>; the functions below
  take it as the parameter \<open>gck\<close>.
\<close>

definition get_session ::
  "(string \<Rightarrow> string) \<Rightarrow> module_state \<Rightarrow> string \<Rightarrow> module_state \<times> (py_error + session)" where
  "get_session gck w endpoint_uri =
     (let cache_key = gck endpoint_uri;
          w1 = (if \<not> lru_contains (session_cache w) cache_key then
                  (case new_session w of (s, w') \<Rightarrow> session_cache_setitem w' cache_key s)
                else w)
      in session_cache_getitem w1 cache_key)"

subsection \<open>The asynchronous cache\<close>

text \<open>
  \<^verbatim>\<open>
  for key, session in evicted_items.items():
      await session.close()
  \<close>
  \<open>close_raises s\<close> tells whether the awaited \<open>close()\<close> of \<open>s\<close> raises. A close that
  raises has been awaited all the same, and ends the loop.
\<close>

fun close_evicted ::
  "(session \<Rightarrow> bool) \<Rightarrow> (string, session) odict \<Rightarrow> session list
     \<Rightarrow> session list \<times> (py_error + unit)" where
  "close_evicted close_raises [] log = (log, Inr ())"
| "close_evicted close_raises ((k, s) # items) log =
     (if close_raises s then (log @ [s], Inl (CloseError s))
      else close_evicted close_raises items (log @ [s]))"

definition cache_async_session ::
  "(string \<Rightarrow> string) \<Rightarrow> (session \<Rightarrow> bool) \<Rightarrow> module_state \<Rightarrow> string \<Rightarrow> session
     \<Rightarrow> module_state \<times> (py_error + unit)" where
  "cache_async_session gck close_raises w endpoint_uri s =
     (let cache_key = gck endpoint_uri in
      case cache (async_session_cache w) cache_key s of
        (c, Inl err) \<Rightarrow> (w\<lparr>async_session_cache := c\<rparr>, Inl err)
      | (c, Inr None) \<Rightarrow> (w\<lparr>async_session_cache := c\<rparr>, Inr ())
      | (c, Inr (Some evicted_items)) \<Rightarrow>
          (case close_evicted close_raises evicted_items (closed w) of
             (log, r) \<Rightarrow> (w\<lparr>async_session_cache := c, closed := log\<rparr>, r)))"

text \<open>\<open>_async_session_cache.get_cache_entry(cache_key)\<close>\<close>

definition async_session_cache_entry ::
  "module_state \<Rightarrow> string \<Rightarrow> module_state \<times> (py_error + session)" where
  "async_session_cache_entry w key =
     (case get_cache_entry (async_session_cache w) key of
        (c, r) \<Rightarrow> (w\<lparr>async_session_cache := c\<rparr>, r))"

definition get_async_session ::
  "(string \<Rightarrow> string) \<Rightarrow> (session \<Rightarrow> bool) \<Rightarrow> module_state \<Rightarrow> string
     \<Rightarrow> module_state \<times> (py_error + session)" where
  "get_async_session gck close_raises w endpoint_uri =
     (let cache_key = gck endpoint_uri in
      if \<not> contains (async_session_cache w) cache_key then
        (case new_session w of
           (s, w1) \<Rightarrow>
             (case cache_async_session gck close_raises w1 endpoint_uri s of
                (w2, Inl err) \<Rightarrow> (w2, Inl err)
              | (w2, Inr u) \<Rightarrow> async_session_cache_entry w2 cache_key))
      else async_session_cache_entry w cache_key)"

section \<open>Properties\<close>

subsection \<open>Dictionary operations\<close>

lemma od_setitem_new: "k \<notin> fst ` set d \<Longrightarrow> od_setitem k v d = d @ [(k, v)]"
  by (induction d) auto

lemma od_setitem_keys:
  "map fst (od_setitem k v d) = (if k \<in> fst ` set d then map fst d else map fst d @ [k])"
  by (induction d) force+

lemma od_setitem_length:
  "length (od_setitem k v d) = (if k \<in> fst ` set d then length d else Suc (length d))"
  by (induction d) force+

lemma map_of_od_setitem: "map_of (od_setitem k v d) = (map_of d)(k \<mapsto> v)"
  by (induction d) (auto simp: fun_eq_iff)

lemma od_wf_setitem: "od_wf d \<Longrightarrow> od_wf (od_setitem k v d)"
  by (simp add: od_wf_def od_setitem_keys)

subsection \<open>The eviction loop\<close>

lemma evict_loop_below: "int (length d) < n \<Longrightarrow> evict_loop n d ev = (d, Inr ev)"
  by (subst evict_loop.simps) simp

lemma evict_loop_Cons:
  "n \<le> 1 + int (length d) \<Longrightarrow>
   evict_loop n ((k, v) # d) ev =
     evict_loop n d (Some (od_setitem k v (case ev of None \<Rightarrow> [] | Some e \<Rightarrow> e)))"
  by (subst evict_loop.simps) (simp add: od_popitem_first_def)

lemma evict_loop_Nil: "n \<le> 0 \<Longrightarrow> evict_loop n [] ev = ([], Inl KeyError)"
  by (subst evict_loop.simps) (simp add: od_popitem_first_def)

lemma evict_loop_nonpos: "n \<le> 0 \<Longrightarrow> evict_loop n d ev = ([], Inl KeyError)"
proof (induction d arbitrary: ev)
  case Nil
  then show ?case by (rule evict_loop_Nil)
next
  case (Cons kv d)
  obtain k v where kv: "kv = (k, v)" by (cases kv)
  from Cons.prems have "n \<le> 1 + int (length d)" by simp
  then show ?case unfolding kv by (simp add: evict_loop_Cons Cons.IH [OF Cons.prems])
qed

lemma put_all_distinct: "distinct (map fst (e @ xs)) \<Longrightarrow> put_all e xs = e @ xs"
proof (induction xs arbitrary: e)
  case Nil
  then show ?case by simp
next
  case (Cons kv xs)
  obtain k v where kv: "kv = (k, v)" by (cases kv)
  from Cons.prems have new: "k \<notin> fst ` set e" and d: "distinct (map fst ((e @ [(k, v)]) @ xs))"
    unfolding kv by auto
  show ?case unfolding kv using Cons.IH [OF d] by (simp add: od_setitem_new [OF new])
qed

lemma evict_loop_pos:
  "1 \<le> n \<Longrightarrow> n \<le> int (length d) \<Longrightarrow>
   evict_loop n d ev =
     (drop (Suc (length d) - nat n) d,
      Inr (Some (put_all (case ev of None \<Rightarrow> [] | Some e \<Rightarrow> e) (take (Suc (length d) - nat n) d))))"
proof (induction d arbitrary: ev)
  case Nil
  then show ?case by simp
next
  case (Cons kv d)
  obtain k v where kv: "kv = (k, v)" by (cases kv)
  from Cons.prems have step: "n \<le> 1 + int (length d)" by simp
  show ?case
  proof (cases "n \<le> int (length d)")
    case True
    with Cons.prems have m: "Suc (Suc (length d)) - nat n = Suc (Suc (length d) - nat n)"
      by linarith
    show ?thesis
      unfolding kv by (simp add: m evict_loop_Cons [OF step] Cons.IH [OF Cons.prems(1) True])
  next
    case False
    with Cons.prems have "nat n = Suc (length d)" by simp
    then have m: "Suc (Suc (length d)) - nat n = Suc 0" by simp
    from False have below: "int (length d) < n" by simp
    show ?thesis unfolding kv by (simp add: m evict_loop_Cons [OF step] evict_loop_below [OF below])
  qed
qed

subsection \<open>One call of cache, by cases\<close>

lemma cache_present:
  "od_contains (sc_data c) key \<Longrightarrow>
   cache c key val = (c\<lparr>sc_data := od_setitem key val (sc_data c)\<rparr>, Inr None)"
  by (simp add: cache_def)

lemma cache_new_room:
  "\<not> od_contains (sc_data c) key \<Longrightarrow> int (length (sc_data c)) < sc_size c \<Longrightarrow>
   cache c key val = (c\<lparr>sc_data := sc_data c @ [(key, val)]\<rparr>, Inr None)"
  by (simp add: cache_def evict_loop_below od_setitem_new od_contains_def)

lemma cache_new_nonpos:
  "\<not> od_contains (sc_data c) key \<Longrightarrow> sc_size c \<le> 0 \<Longrightarrow>
   cache c key val = (c\<lparr>sc_data := []\<rparr>, Inl KeyError)"
  by (simp add: cache_def evict_loop_nonpos)

lemma cache_new_full:
  assumes new: "\<not> od_contains (sc_data c) key"
    and pos: "1 \<le> sc_size c"
    and full: "sc_size c \<le> int (length (sc_data c))"
    and wf: "od_wf (sc_data c)"
  shows "cache c key val =
     (c\<lparr>sc_data := drop (Suc (length (sc_data c)) - nat (sc_size c)) (sc_data c) @ [(key, val)]\<rparr>,
      Inr (Some (take (Suc (length (sc_data c)) - nat (sc_size c)) (sc_data c))))"
proof -
  let ?m = "Suc (length (sc_data c)) - nat (sc_size c)"
  from wf have "distinct (map fst ([] @ take ?m (sc_data c)))"
    by (simp add: od_wf_def distinct_take flip: take_map)
  then have ev: "put_all [] (take ?m (sc_data c)) = take ?m (sc_data c)"
    using put_all_distinct [of "[]" "take ?m (sc_data c)"] by simp
  from new have "key \<notin> fst ` set (drop ?m (sc_data c))"
    by (auto simp: od_contains_def dest: in_set_dropD)
  then have ins: "od_setitem key val (drop ?m (sc_data c)) = drop ?m (sc_data c) @ [(key, val)]"
    by (rule od_setitem_new)
  show ?thesis
    using new by (simp add: cache_def evict_loop_pos [OF pos full] ev ins)
qed

lemma cache_returns:
  assumes "1 \<le> sc_size c"
  shows "\<exists>c' ev. cache c key val = (c', Inr ev)"
proof (cases "evict_loop (sc_size c) (sc_data c) None")
  case (Pair d r)
  have "\<exists>ev. r = Inr ev"
  proof (cases "sc_size c \<le> int (length (sc_data c))")
    case True
    with Pair assms show ?thesis by (auto simp: evict_loop_pos)
  next
    case False
    with Pair show ?thesis by (auto simp: evict_loop_below)
  qed
  with Pair show ?thesis by (auto simp: cache_def)
qed

lemma cache_raises_iff:
  "(\<exists>c'. cache c key val = (c', Inl KeyError)) \<longleftrightarrow> \<not> od_contains (sc_data c) key \<and> sc_size c \<le> 0"
proof (cases "1 \<le> sc_size c")
  case True
  with cache_returns [OF True, of key val] show ?thesis by auto
next
  case False
  then show ?thesis by (cases "od_contains (sc_data c) key") (auto simp: cache_present cache_new_nonpos)
qed

subsection \<open>Reading after writing\<close>

lemma od_getitem_setitem: "od_getitem (od_setitem k v d) k = Inr v"
  by (simp add: od_getitem_def map_of_od_setitem)

lemma od_getitem_setitem_other: "k' \<noteq> k \<Longrightarrow> od_getitem (od_setitem k v d) k' = od_getitem d k'"
  by (simp add: od_getitem_def map_of_od_setitem)

lemma od_contains_setitem: "od_contains (od_setitem k v d) k"
  by (simp add: od_contains_def od_setitem_keys)

lemma od_getitem_absent:
  assumes "\<not> od_contains d k"
  shows "od_getitem d k = Inl KeyError"
proof -
  from assms have "map_of d k = None" by (simp add: od_contains_def map_of_eq_None_iff)
  then show ?thesis by (simp add: od_getitem_def)
qed

lemma take_drop_keys_disjoint:
  assumes "od_wf d" and "k \<in> fst ` set (take m d)"
  shows "k \<notin> fst ` set (drop m d)"
proof -
  from assms(1) have "distinct (map fst (take m d) @ map fst (drop m d))"
    by (simp add: od_wf_def flip: map_append)
  then have "set (map fst (take m d)) \<inter> set (map fst (drop m d)) = {}"
    by (simp only: distinct_append)
  with assms(2) show ?thesis by auto
qed

lemma cache_then_resident:
  assumes "cache c key val = (c', Inr ev)"
  shows "od_contains (sc_data c') key \<and> od_getitem (sc_data c') key = Inr val"
  using assms
  by (auto simp: cache_def od_getitem_setitem od_contains_setitem
           split: if_splits prod.splits sum.splits)

lemma cache_wf:
  assumes "od_wf (sc_data c)" and "cache c key val = (c', r)"
  shows "od_wf (sc_data c')"
proof (cases "od_contains (sc_data c) key")
  case True
  with assms show ?thesis by (auto simp: cache_present od_wf_setitem)
next
  case new: False
  show ?thesis
  proof (cases "1 \<le> sc_size c")
    case False
    with new assms show ?thesis by (auto simp: cache_new_nonpos od_wf_def)
  next
    case pos: True
    show ?thesis
    proof (cases "sc_size c \<le> int (length (sc_data c))")
      case True
      have "od_wf (od_setitem key val (drop (Suc (length (sc_data c)) - nat (sc_size c)) (sc_data c)))"
        using assms(1) by (intro od_wf_setitem) (simp add: od_wf_def distinct_drop flip: drop_map)
      moreover have "key \<notin> fst ` set (drop (Suc (length (sc_data c)) - nat (sc_size c)) (sc_data c))"
        using new by (auto simp: od_contains_def dest: in_set_dropD)
      ultimately show ?thesis
        using assms cache_new_full [OF new pos True assms(1), of val]
        by (auto simp: od_setitem_new)
    next
      case False
      with new assms show ?thesis
        using od_wf_setitem [OF assms(1), of key val]
        by (auto simp: cache_new_room od_setitem_new od_contains_def)
    qed
  qed
qed

subsection \<open>A run of cache calls\<close>

lemma cache_all_fifo:
  assumes "1 \<le> sc_size c"
    and "distinct (map fst (sc_data c @ kvs))"
    and "int (length (sc_data c)) \<le> sc_size c"
  shows "\<exists>evs. cache_all c kvs =
           (c\<lparr>sc_data := drop (length (sc_data c @ kvs) - nat (sc_size c)) (sc_data c @ kvs)\<rparr>,
            Inr evs)"
  using assms
proof (induction kvs arbitrary: c)
  case Nil
  then show ?case by simp
next
  case (Cons kv kvs)
  obtain k v where kv: "kv = (k, v)" by (cases kv)
  from Cons.prems(2) have new: "\<not> od_contains (sc_data c) k"
    by (auto simp: kv od_contains_def)
  from Cons.prems(2) have wf: "od_wf (sc_data c)" by (simp add: od_wf_def)
  show ?case
  proof (cases "int (length (sc_data c)) < sc_size c")
    case True
    let ?c1 = "c\<lparr>sc_data := sc_data c @ [(k, v)]\<rparr>"
    have step: "cache c k v = (?c1, Inr None)" by (rule cache_new_room [OF new True])
    have "\<exists>evs. cache_all ?c1 kvs =
            (?c1\<lparr>sc_data := drop (length (sc_data ?c1 @ kvs) - nat (sc_size ?c1)) (sc_data ?c1 @ kvs)\<rparr>,
             Inr evs)"
      using Cons.prems True by (intro Cons.IH) (simp_all add: kv)
    then show ?thesis by (auto simp: kv step)
  next
    case False
    with Cons.prems(3) have full: "int (length (sc_data c)) = sc_size c" by simp
    with Cons.prems(1) obtain x d where d: "sc_data c = x # d" by (cases "sc_data c") auto
    from full d have n: "nat (sc_size c) = Suc (length d)" by simp
    let ?c1 = "c\<lparr>sc_data := d @ [(k, v)]\<rparr>"
    have step: "cache c k v = (?c1, Inr (Some [x]))"
      using cache_new_full [OF new Cons.prems(1) _ wf, of v] full by (simp add: d n)
    have "\<exists>evs. cache_all ?c1 kvs =
            (?c1\<lparr>sc_data := drop (length (sc_data ?c1 @ kvs) - nat (sc_size ?c1)) (sc_data ?c1 @ kvs)\<rparr>,
             Inr evs)"
      using Cons.prems full by (intro Cons.IH) (simp_all add: kv d)
    then show ?thesis by (auto simp: kv step d n)
  qed
qed

subsection \<open>Closing evicted sessions\<close>

lemma key_of_take: "k \<in> fst ` set (take m d) \<Longrightarrow> od_contains d k"
  using set_take_subset [of m d] by (auto simp: od_contains_def)

lemma close_evicted_raises:
  assumes "(k, x) \<in> set ev" and "close_raises x"
  shows "\<exists>y log'. close_evicted close_raises ev log = (log', Inl (CloseError y)) \<and>
           close_raises y \<and> y \<in> snd ` set ev"
  using assms
proof (induction ev arbitrary: log)
  case Nil
  then show ?case by simp
next
  case (Cons kx ev)
  obtain k' x' where kx: "kx = (k', x')" by (cases kx)
  show ?case
  proof (cases "close_raises x'")
    case True
    then show ?thesis by (simp add: kx)
  next
    case False
    with Cons.prems have "(k, x) \<in> set ev" by (auto simp: kx)
    from Cons.IH [OF this Cons.prems(2), of "log @ [x']"] False
    show ?thesis by (auto simp: kx)
  qed
qed

lemma close_evicted_quiet_on:
  "\<forall>x \<in> snd ` set ev. \<not> close_raises x \<Longrightarrow>
   close_evicted close_raises ev log = (log @ map snd ev, Inr ())"
  by (induction ev arbitrary: log) auto

subsection \<open>The synchronous cache\<close>

lemma od_remove_last: "k \<notin> fst ` set d \<Longrightarrow> od_remove k (d @ [(k, v)]) = d"
  by (induction d) (auto simp: od_remove_def)

lemma od_remove_keys: "k \<notin> fst ` set (od_remove k d)"
  by (auto simp: od_remove_def)

lemma map_of_last: "k \<notin> fst ` set d \<Longrightarrow> map_of (d @ [(k, v)]) k = Some v"
  by (induction d) auto

lemma lru_getitem_settled:
  assumes "map_of (lru_items l) k = Some v"
    and "lru_touch l \<Longrightarrow> od_remove k (lru_items l) @ [(k, v)] = lru_items l"
  shows "lru_getitem l k = (l, Inr v)"
  using assms by (simp add: lru_getitem_def)

lemma lru_getitem_value:
  assumes "map_of (lru_items l) k = Some v"
  shows "\<exists>l'. lru_getitem l k = (l', Inr v) \<and>
           map_of (lru_items l') k = Some v \<and>
           (lru_touch l' \<longrightarrow> od_remove k (lru_items l') @ [(k, v)] = lru_items l')"
proof -
  let ?d = "od_remove k (lru_items l)"
  have fresh: "k \<notin> fst ` set ?d" by (rule od_remove_keys)
  show ?thesis
  proof (cases "lru_touch l")
    case True
    then have "lru_getitem l k = (l\<lparr>lru_items := ?d @ [(k, v)]\<rparr>, Inr v)"
      by (simp add: lru_getitem_def assms)
    moreover have "map_of (?d @ [(k, v)]) k = Some v" by (rule map_of_last [OF fresh])
    moreover have "od_remove k (?d @ [(k, v)]) @ [(k, v)] = ?d @ [(k, v)]"
      by (simp only: od_remove_last [OF fresh])
    ultimately show ?thesis by simp
  next
    case False
    then have "lru_getitem l k = (l, Inr v)" by (simp add: lru_getitem_def assms)
    with assms False show ?thesis by simp
  qed
qed

lemma lru_kept_keys: "\<not> od_contains (lru_items l) k \<Longrightarrow> k \<notin> fst ` set (lru_kept l)"
  by (cases "lru_items l") (auto simp: lru_kept_def od_contains_def)

lemma lru_setitem_new:
  assumes "\<not> od_contains (lru_items l) k"
  shows "fst (lru_setitem l k v) = l\<lparr>lru_items := lru_kept l @ [(k, v)]\<rparr>"
  using assms by (simp add: lru_setitem_def)

lemma get_session_hit:
  assumes "map_of (lru_items (session_cache w)) (gck uri) = Some s"
    and "lru_touch (session_cache w) \<Longrightarrow>
           od_remove (gck uri) (lru_items (session_cache w)) @ [(gck uri, s)] =
             lru_items (session_cache w)"
  shows "get_session gck w uri = (w, Inr s)"
proof -
  from assms(1) have "map_of (lru_items (session_cache w)) (gck uri) \<noteq> None" by simp
  then have "lru_contains (session_cache w) (gck uri)"
    by (simp add: lru_contains_def od_contains_def map_of_eq_None_iff)
  then show ?thesis
    by (simp add: Let_def get_session_def session_cache_getitem_def lru_getitem_settled [OF assms])
qed

lemma get_session_on_hit:
  assumes "map_of (lru_items (session_cache w)) (gck uri) = Some s"
  shows "\<exists>w1. get_session gck w uri = (w1, Inr s) \<and>
           sessions_constructed w1 = sessions_constructed w \<and>
           closed w1 = closed w \<and>
           map_of (lru_items (session_cache w1)) (gck uri) = Some s \<and>
           get_session gck w1 uri = (w1, Inr s)"
proof -
  from assms have "map_of (lru_items (session_cache w)) (gck uri) \<noteq> None" by simp
  then have hit: "lru_contains (session_cache w) (gck uri)"
    by (simp add: lru_contains_def od_contains_def map_of_eq_None_iff)
  from lru_getitem_value [OF assms] obtain l' where
    g: "lru_getitem (session_cache w) (gck uri) = (l', Inr s)"
    and m: "map_of (lru_items l') (gck uri) = Some s"
    and t: "lru_touch l' \<longrightarrow> od_remove (gck uri) (lru_items l') @ [(gck uri, s)] = lru_items l'"
    by blast
  let ?w1 = "w\<lparr>session_cache := l'\<rparr>"
  have first: "get_session gck w uri = (?w1, Inr s)"
    using hit by (simp add: Let_def get_session_def session_cache_getitem_def g)
  have "get_session gck ?w1 uri = (?w1, Inr s)"
    using m t by (intro get_session_hit) simp_all
  with first m show ?thesis by simp
qed

lemma get_session_on_miss:
  assumes "\<not> lru_contains (session_cache w) (gck uri)"
  shows "\<exists>w1. get_session gck w uri = (w1, Inr (sessions_constructed w)) \<and>
           sessions_constructed w1 = Suc (sessions_constructed w) \<and>
           map_of (lru_items (session_cache w1)) (gck uri) = Some (sessions_constructed w) \<and>
           get_session gck w1 uri = (w1, Inr (sessions_constructed w))"
proof -
  let ?s = "sessions_constructed w"
  let ?d = "lru_kept (session_cache w)"
  let ?l = "(session_cache w)\<lparr>lru_items := ?d @ [(gck uri, ?s)]\<rparr>"
  from assms have new: "\<not> od_contains (lru_items (session_cache w)) (gck uri)"
    by (simp add: lru_contains_def)
  obtain l' dropped where set: "lru_setitem (session_cache w) (gck uri) ?s = (l', dropped)"
    by (cases "lru_setitem (session_cache w) (gck uri) ?s")
  with lru_setitem_new [OF new, of ?s] have l': "l' = ?l" by simp
  have d: "gck uri \<notin> fst ` set ?d" by (rule lru_kept_keys [OF new])
  have m: "map_of (lru_items ?l) (gck uri) = Some ?s" using map_of_last [OF d] by simp
  have t: "od_remove (gck uri) (lru_items ?l) @ [(gck uri, ?s)] = lru_items ?l"
    using od_remove_last [OF d, of ?s] by simp
  have get: "lru_getitem ?l (gck uri) = (?l, Inr ?s)"
    by (rule lru_getitem_settled [OF m t])
  let ?w1 = "w\<lparr>sessions_constructed := Suc ?s, session_cache := ?l,
               closed := closed w @ map snd dropped\<rparr>"
  have first: "get_session gck w uri = (?w1, Inr ?s)"
    using assms
    by (simp add: Let_def get_session_def new_session_def session_cache_setitem_def set l'
          session_cache_getitem_def get)
  have "get_session gck ?w1 uri = (?w1, Inr ?s)"
    using m t by (intro get_session_hit) simp_all
  with first m show ?thesis by simp
qed

subsection \<open>The asynchronous cache\<close>

lemma get_async_session_hit:
  assumes "contains (async_session_cache w) (gck uri)"
    and "od_getitem (sc_data (async_session_cache w)) (gck uri) = Inr s"
  shows "get_async_session gck close_raises w uri = (w, Inr s)"
  using assms by (simp add: Let_def get_async_session_def async_session_cache_entry_def get_cache_entry_def)

lemma cache_async_session_returns:
  assumes "cache_async_session gck close_raises w uri s = (w', Inr u)"
  shows "contains (async_session_cache w') (gck uri) \<and>
         od_getitem (sc_data (async_session_cache w')) (gck uri) = Inr s \<and>
         sessions_constructed w' = sessions_constructed w"
proof (cases "cache (async_session_cache w) (gck uri) s")
  case (Pair c res)
  with assms obtain ev where res: "res = Inr ev"
    by (cases res) (auto simp: Let_def cache_async_session_def)
  from cache_then_resident [OF Pair [unfolded res]]
  have r: "od_contains (sc_data c) (gck uri)" "od_getitem (sc_data c) (gck uri) = Inr s"
    by simp_all
  from assms Pair res have "async_session_cache w' = c \<and> sessions_constructed w' = sessions_constructed w"
    by (cases ev) (auto simp: Let_def cache_async_session_def split: prod.splits)
  with r show ?thesis by (simp add: contains_def)
qed

lemma get_async_session_resident:
  assumes "get_async_session gck close_raises w uri = (w1, Inr s)"
  shows "contains (async_session_cache w1) (gck uri) \<and>
         od_getitem (sc_data (async_session_cache w1)) (gck uri) = Inr s \<and>
         (if contains (async_session_cache w) (gck uri) then w1 = w
          else s = sessions_constructed w \<and>
               sessions_constructed w1 = Suc (sessions_constructed w))"
proof (cases "contains (async_session_cache w) (gck uri)")
  case True
  with assms show ?thesis
    by (auto simp: Let_def get_async_session_def async_session_cache_entry_def get_cache_entry_def)
next
  case False
  let ?w0 = "w\<lparr>sessions_constructed := Suc (sessions_constructed w)\<rparr>"
  obtain w2 r where run: "cache_async_session gck close_raises ?w0 uri (sessions_constructed w) = (w2, r)"
    by (cases "cache_async_session gck close_raises ?w0 uri (sessions_constructed w)")
  with assms False obtain u where r: "r = Inr u"
    by (cases r) (auto simp: Let_def get_async_session_def new_session_def)
  from cache_async_session_returns [OF run [unfolded r]]
  have res: "contains (async_session_cache w2) (gck uri)"
    "od_getitem (sc_data (async_session_cache w2)) (gck uri) = Inr (sessions_constructed w)"
    "sessions_constructed w2 = Suc (sessions_constructed w)"
    by simp_all
  from assms False run r have "w1 = w2" "s = sessions_constructed w"
    by (auto simp: Let_def get_async_session_def new_session_def async_session_cache_entry_def
          get_cache_entry_def res)
  with res False show ?thesis by simp
qed

lemma get_async_session_quiet:
  assumes "cache (async_session_cache w) (gck uri) (sessions_constructed w) = (c', Inr ev)"
    and "\<forall>x \<in> snd ` set (case ev of None \<Rightarrow> [] | Some e \<Rightarrow> e). \<not> close_raises x"
  shows "\<exists>w1 s. get_async_session gck close_raises w uri = (w1, Inr s)"
proof (cases "contains (async_session_cache w) (gck uri)")
  case True
  then have "map_of (sc_data (async_session_cache w)) (gck uri) \<noteq> None"
    by (simp add: contains_def od_contains_def map_of_eq_None_iff)
  then obtain s where "od_getitem (sc_data (async_session_cache w)) (gck uri) = Inr s"
    by (auto simp: od_getitem_def)
  with True get_async_session_hit show ?thesis by blast
next
  case False
  let ?w0 = "w\<lparr>sessions_constructed := Suc (sessions_constructed w)\<rparr>"
  have "\<exists>w2. cache_async_session gck close_raises ?w0 uri (sessions_constructed w) = (w2, Inr ())"
  proof (cases ev)
    case None
    with assms(1) show ?thesis by (simp add: Let_def cache_async_session_def)
  next
    case (Some e)
    with assms(2) have "\<forall>x \<in> snd ` set e. \<not> close_raises x" by simp
    from close_evicted_quiet_on [OF this] assms(1) Some show ?thesis
      by (simp add: Let_def cache_async_session_def)
  qed
  then obtain w2 where
    run: "cache_async_session gck close_raises ?w0 uri (sessions_constructed w) = (w2, Inr ())"
    by blast
  from cache_async_session_returns [OF run]
  have "od_getitem (sc_data (async_session_cache w2)) (gck uri) = Inr (sessions_constructed w)"
    by simp
  with False run show ?thesis
    by (simp add: Let_def get_async_session_def new_session_def async_session_cache_entry_def
          get_cache_entry_def)
qed

lemma get_async_session_close_raises:
  assumes "\<not> contains (async_session_cache w) (gck uri)"
    and "cache (async_session_cache w) (gck uri) (sessions_constructed w) = (c', Inr (Some e))"
    and "(k, x) \<in> set e" and "close_raises x"
  shows "\<exists>w1 y. get_async_session gck close_raises w uri = (w1, Inl (CloseError y)) \<and>
           close_raises y \<and> async_session_cache w1 = c' \<and>
           sessions_constructed w1 = Suc (sessions_constructed w)"
proof -
  from close_evicted_raises
         [where close_raises = close_raises and log = "closed w", OF assms(3,4)]
  obtain y log' where cl: "close_evicted close_raises e (closed w) = (log', Inl (CloseError y))"
    and y: "close_raises y"
    by blast
  from assms(1) show ?thesis
    by (simp add: Let_def get_async_session_def new_session_def cache_async_session_def
          assms(2) cl y)
qed

section \<open>The specification's claims\<close>

subsection \<open>Distinct keys beyond the capacity\<close>

text \<open>
  C1. Starting from a freshly constructed cache of capacity \<open>n\<close>, at least 1, a
  sequence of \<open>cache\<close> calls with pairwise distinct keys, more of them than \<open>n\<close>, runs
  to its end without raising; afterwards the cache holds exactly \<open>n\<close> entries, and they
  are the last \<open>n\<close> of the sequence, in the order in which they were inserted.
\<close>

theorem cache_distinct_keys_overflow:
  assumes "1 \<le> n" and "distinct (map fst kvs)" and "nat n < length kvs"
  shows "\<exists>c evs. cache_all (SessionCache_init n) kvs = (c, Inr evs) \<and>
           int (len c) = n \<and>
           sc_data c = drop (length kvs - nat n) kvs \<and>
           map fst (sc_data c) = drop (length kvs - nat n) (map fst kvs)"
proof -
  let ?c0 = "SessionCache_init n :: 'a SessionCache"
  have "\<exists>evs. cache_all ?c0 kvs =
          (?c0\<lparr>sc_data := drop (length (sc_data ?c0 @ kvs) - nat (sc_size ?c0)) (sc_data ?c0 @ kvs)\<rparr>,
           Inr evs)"
    using assms by (intro cache_all_fifo) (simp_all add: SessionCache_init_def)
  then obtain evs where
    "cache_all ?c0 kvs = (?c0\<lparr>sc_data := drop (length kvs - nat n) kvs\<rparr>, Inr evs)"
    by (auto simp: SessionCache_init_def)
  moreover from assms have "int (length (drop (length kvs - nat n) kvs)) = n" by simp
  ultimately show ?thesis by (simp add: len_def drop_map)
qed

theorem cache_distinct_keys_overflow_witness:
  "(1::int) \<le> 2 \<and> distinct (map fst [(''A'', 1::nat), (''B'', 2), (''C'', 3), (''D'', 4)]) \<and>
   nat 2 < length [(''A'', 1::nat), (''B'', 2), (''C'', 3), (''D'', 4)] \<and>
   (\<exists>c evs. cache_all (SessionCache_init 2) [(''A'', 1::nat), (''B'', 2), (''C'', 3), (''D'', 4)] =
      (c, Inr evs) \<and> int (len c) = 2 \<and> sc_data c = [(''C'', 3), (''D'', 4)])"
proof -
  have h1: "(1::int) \<le> 2" by simp
  have h2: "distinct (map fst [(''A'', 1::nat), (''B'', 2), (''C'', 3), (''D'', 4)])" by simp
  have h3: "nat 2 < length [(''A'', 1::nat), (''B'', 2), (''C'', 3), (''D'', 4)]" by simp
  show ?thesis
    using h1 h2 h3 cache_distinct_keys_overflow [OF h1 h2 h3]
    by (simp del: cache_all.simps) blast
qed

subsection \<open>First in, first out\<close>

text \<open>
  C2. On a cache of capacity 2, caching three pairwise distinct keys A, B, C in this order
  returns None, None and then the mapping of A to its value, and leaves exactly B and C
  in the cache, B the older.
\<close>

theorem cache_fifo_capacity_2:
  assumes "distinct [a, b, c]"
  shows "cache_all (SessionCache_init 2) [(a, va), (b, vb), (c, vc)] =
           (\<lparr>sc_size = 2, sc_data = [(b, vb), (c, vc)]\<rparr>, Inr [None, None, Some [(a, va)]])"
proof -
  have 1: "cache (SessionCache_init 2) a va = (\<lparr>sc_size = 2, sc_data = [(a, va)]\<rparr>, Inr None)"
    by (simp add: cache_new_room SessionCache_init_def od_contains_def)
  have 2: "cache \<lparr>sc_size = 2, sc_data = [(a, va)]\<rparr> b vb =
             (\<lparr>sc_size = 2, sc_data = [(a, va), (b, vb)]\<rparr>, Inr None)"
    using assms by (subst cache_new_room) (auto simp: od_contains_def)
  have 3: "cache \<lparr>sc_size = 2, sc_data = [(a, va), (b, vb)]\<rparr> c vc =
             (\<lparr>sc_size = 2, sc_data = [(b, vb), (c, vc)]\<rparr>, Inr (Some [(a, va)]))"
    using assms by (subst cache_new_full) (auto simp: od_contains_def od_wf_def)
  show ?thesis by (simp add: 1 2 3)
qed

theorem cache_fifo_capacity_2_witness:
  "distinct [''A'', ''B'', ''C''] \<and>
   cache_all (SessionCache_init 2) [(''A'', 1::nat), (''B'', 2), (''C'', 3)] =
     (\<lparr>sc_size = 2, sc_data = [(''B'', 2), (''C'', 3)]\<rparr>, Inr [None, None, Some [(''A'', 1)]])"
proof -
  have d: "distinct [''A'', ''B'', ''C'']" by simp
  show ?thesis using d cache_fifo_capacity_2 [OF d, of "1::nat" 2 3] by simp
qed

subsection \<open>A key that is already present\<close>

text \<open>
  C3. \<open>cache\<close> with a key that is already in the cache, whatever the size and the
  capacity: the call returns None (nothing is evicted), the number of entries and the
  order of the keys stay as they were, the key now reads as the new value, and every
  other key reads as before.
\<close>

theorem cache_existing_key:
  assumes "contains c key"
  shows "\<exists>c'. cache c key val = (c', Inr None) \<and>
           sc_size c' = sc_size c \<and>
           len c' = len c \<and>
           map fst (sc_data c') = map fst (sc_data c) \<and>
           get_cache_entry c' key = (c', Inr val) \<and>
           (\<forall>k. k \<noteq> key \<longrightarrow> snd (get_cache_entry c' k) = snd (get_cache_entry c k))"
  using assms
  by (simp add: contains_def cache_present len_def od_setitem_length od_setitem_keys
        get_cache_entry_def od_getitem_setitem od_getitem_setitem_other od_contains_def)

theorem cache_existing_key_witness:
  "contains \<lparr>sc_size = 1, sc_data = [(''a'', 1::nat), (''b'', 2)]\<rparr> ''a'' \<and>
   cache \<lparr>sc_size = 1, sc_data = [(''a'', 1::nat), (''b'', 2)]\<rparr> ''a'' 5 =
     (\<lparr>sc_size = 1, sc_data = [(''a'', 5), (''b'', 2)]\<rparr>, Inr None)"
proof -
  have h: "contains \<lparr>sc_size = 1, sc_data = [(''a'', 1::nat), (''b'', 2)]\<rparr> ''a''"
    by (simp add: contains_def od_contains_def)
  show ?thesis
    using h cache_existing_key [OF h, of 5]
    by (simp add: cache_def od_contains_def)
qed

subsection \<open>Reading an entry\<close>

text \<open>
  C4. \<open>get_cache_entry\<close> on a key right after a \<open>cache\<close> call of that key that returned
  gives the value that was stored; on a key that is not in the cache it raises KeyError,
  also on every key that the \<open>cache\<close> call just evicted; and it never changes the cache.
\<close>

theorem get_cache_entry_spec:
  "(cache c key val = (c', Inr ev) \<longrightarrow> get_cache_entry c' key = (c', Inr val)) \<and>
   (\<not> contains c key \<longrightarrow> get_cache_entry c key = (c, Inl KeyError)) \<and>
   (od_wf (sc_data c) \<and> cache c key val = (c', Inr (Some evicted)) \<and> k \<in> fst ` set evicted
      \<longrightarrow> get_cache_entry c' k = (c', Inl KeyError)) \<and>
   fst (get_cache_entry c key) = c"
proof (intro conjI impI)
  assume "cache c key val = (c', Inr ev)"
  then show "get_cache_entry c' key = (c', Inr val)"
    by (simp add: get_cache_entry_def cache_then_resident)
next
  assume "\<not> contains c key"
  then show "get_cache_entry c key = (c, Inl KeyError)"
    by (simp add: get_cache_entry_def contains_def od_getitem_absent)
next
  show "fst (get_cache_entry c key) = c" by (simp add: get_cache_entry_def)
next
  assume a: "od_wf (sc_data c) \<and> cache c key val = (c', Inr (Some evicted)) \<and> k \<in> fst ` set evicted"
  let ?m = "Suc (length (sc_data c)) - nat (sc_size c)"
  from a have new: "\<not> od_contains (sc_data c) key"
    by (auto simp: cache_def split: if_splits)
  from a new have pos: "1 \<le> sc_size c"
    by (cases "1 \<le> sc_size c") (auto simp: cache_new_nonpos)
  from a new have full: "sc_size c \<le> int (length (sc_data c))"
    by (cases "sc_size c \<le> int (length (sc_data c))") (auto simp: cache_new_room)
  from a cache_new_full [OF new pos full, of val]
  have c': "sc_data c' = drop ?m (sc_data c) @ [(key, val)]" and ev: "evicted = take ?m (sc_data c)"
    by auto
  from a ev have wf: "od_wf (sc_data c)" and "k \<in> fst ` set (take ?m (sc_data c))"
    by simp_all
  then have "k \<notin> fst ` set (drop ?m (sc_data c))"
    by (rule take_drop_keys_disjoint)
  moreover from a ev new have "k \<noteq> key"
    by (auto simp: od_contains_def dest: in_set_takeD)
  ultimately have "\<not> od_contains (sc_data c') k" by (simp add: c' od_contains_def)
  then show "get_cache_entry c' k = (c', Inl KeyError)"
    by (simp add: get_cache_entry_def od_getitem_absent)
qed

theorem get_cache_entry_spec_witness:
  "cache \<lparr>sc_size = 1, sc_data = [(''a'', 1::nat)]\<rparr> ''b'' 2 =
     (\<lparr>sc_size = 1, sc_data = [(''b'', 2)]\<rparr>, Inr (Some [(''a'', 1)])) \<and>
   \<not> contains \<lparr>sc_size = 1, sc_data = [(''a'', 1::nat)]\<rparr> ''b'' \<and>
   od_wf (sc_data \<lparr>sc_size = 1, sc_data = [(''a'', 1::nat)]\<rparr>) \<and>
   ''a'' \<in> fst ` set [(''a'', 1::nat)] \<and>
   get_cache_entry \<lparr>sc_size = 1, sc_data = [(''b'', 2::nat)]\<rparr> ''b'' =
     (\<lparr>sc_size = 1, sc_data = [(''b'', 2)]\<rparr>, Inr 2) \<and>
   get_cache_entry \<lparr>sc_size = 1, sc_data = [(''a'', 1::nat)]\<rparr> ''b'' =
     (\<lparr>sc_size = 1, sc_data = [(''a'', 1)]\<rparr>, Inl KeyError) \<and>
   get_cache_entry \<lparr>sc_size = 1, sc_data = [(''b'', 2::nat)]\<rparr> ''a'' =
     (\<lparr>sc_size = 1, sc_data = [(''b'', 2)]\<rparr>, Inl KeyError)"
proof -
  let ?c = "\<lparr>sc_size = 1, sc_data = [(''a'', 1::nat)]\<rparr>"
  let ?c' = "\<lparr>sc_size = 1, sc_data = [(''b'', 2::nat)]\<rparr>"
  have h1: "cache ?c ''b'' 2 = (?c', Inr (Some [(''a'', 1)]))"
    by (simp add: cache_def od_contains_def evict_loop.simps od_popitem_first_def)
  have h2: "\<not> contains ?c ''b''" by (simp add: contains_def od_contains_def)
  have h3: "od_wf (sc_data ?c)" by (simp add: od_wf_def)
  have h4: "''a'' \<in> fst ` set [(''a'', 1::nat)]" by simp
  show ?thesis
    using h1 h2 h3 h4
      get_cache_entry_spec [of ?c "''b''" 2 ?c' "Some [(''a'', 1)]" "[(''a'', 1)]" "''a''"]
    by simp
qed

subsection \<open>A new key at or over capacity\<close>

text \<open>
  C5. On a cache of capacity at least 1 that holds \<open>len\<close> entries, \<open>len\<close> at or above the
  capacity, \<open>cache\<close> with a new key removes the \<open>len - capacity + 1\<close> oldest entries, one
  or more, which leaves \<open>capacity - 1\<close> of them, returns the removed entries as the
  eviction mapping, oldest first, and appends the new entry as the most recent one.
  The capacity has to be at least 1: with a capacity of 0 or less the loop condition
  never turns false, \<open>popitem\<close> raises KeyError once the dictionary is empty, and the new
  entry is not inserted.
\<close>

theorem cache_new_key_at_capacity:
  assumes "1 \<le> sc_size c" and "od_wf (sc_data c)"
    and "\<not> contains c key" and "sc_size c \<le> int (len c)"
  shows "cache c key val =
           (c\<lparr>sc_data := drop (Suc (len c) - nat (sc_size c)) (sc_data c) @ [(key, val)]\<rparr>,
            Inr (Some (take (Suc (len c) - nat (sc_size c)) (sc_data c)))) \<and>
         1 \<le> Suc (len c) - nat (sc_size c) \<and>
         int (length (drop (Suc (len c) - nat (sc_size c)) (sc_data c))) = sc_size c - 1"
proof -
  from assms have "cache c key val =
           (c\<lparr>sc_data := drop (Suc (len c) - nat (sc_size c)) (sc_data c) @ [(key, val)]\<rparr>,
            Inr (Some (take (Suc (len c) - nat (sc_size c)) (sc_data c))))"
    unfolding len_def contains_def by (intro cache_new_full)
  moreover from assms(1,4) have "1 \<le> Suc (len c) - nat (sc_size c)" by linarith
  moreover from assms(1,4)
  have "int (length (drop (Suc (len c) - nat (sc_size c)) (sc_data c))) = sc_size c - 1"
    by (simp add: len_def)
  ultimately show ?thesis by simp
qed

theorem cache_new_key_size_0_counterexample:
  "\<not> contains \<lparr>sc_size = 0, sc_data = []\<rparr> ''a'' \<and>
   sc_size \<lparr>sc_size = 0, sc_data = []\<rparr> \<le> int (len \<lparr>sc_size = 0, sc_data = []\<rparr>) \<and>
   cache \<lparr>sc_size = 0, sc_data = []\<rparr> ''a'' (1::nat) = (\<lparr>sc_size = 0, sc_data = []\<rparr>, Inl KeyError)"
  by (simp add: contains_def od_contains_def len_def cache_def evict_loop.simps od_popitem_first_def)

theorem cache_new_key_at_capacity_witness:
  "cache \<lparr>sc_size = 1, sc_data = [(''a'', 1::nat), (''b'', 2), (''c'', 3)]\<rparr> ''d'' 4 =
     (\<lparr>sc_size = 1, sc_data = [(''d'', 4)]\<rparr>, Inr (Some [(''a'', 1), (''b'', 2), (''c'', 3)]))"
proof -
  let ?c = "\<lparr>sc_size = 1, sc_data = [(''a'', 1::nat), (''b'', 2), (''c'', 3)]\<rparr>"
  have h1: "1 \<le> sc_size ?c" by simp
  have h2: "od_wf (sc_data ?c)" by (simp add: od_wf_def)
  have h3: "\<not> contains ?c ''d''" by (simp add: contains_def od_contains_def)
  have h4: "sc_size ?c \<le> int (len ?c)" by (simp add: len_def)
  show ?thesis using cache_new_key_at_capacity [OF h1 h2 h3 h4, of 4] by (simp add: len_def)
qed

subsection \<open>Eviction in the asynchronous cache\<close>

text \<open>
  C6. With an asynchronous cache of capacity 1 that holds nothing, and endpoints \<open>a\<close> and
  \<open>b\<close> whose cache keys differ: \<open>cache_async_session(a, s1)\<close> returns, then
  \<open>cache_async_session(b, s2)\<close> awaits the close of \<open>s1\<close> once and of no other session;
  afterwards the key of \<open>a\<close> is not in the cache, the key of \<open>b\<close> is, and
  \<open>get_cache_entry\<close> on it returns \<open>s2\<close>. The second call raises exactly when that close
  raises.
\<close>

theorem cache_async_session_capacity_1:
  assumes "gck ''a'' \<noteq> gck ''b''" and "async_session_cache w = SessionCache_init 1"
  shows "\<exists>w1 w2 r.
           cache_async_session gck close_raises w ''a'' s1 = (w1, Inr ()) \<and>
           cache_async_session gck close_raises w1 ''b'' s2 = (w2, r) \<and>
           r = (if close_raises s1 then Inl (CloseError s1) else Inr ()) \<and>
           closed w2 = closed w @ [s1] \<and>
           count_list (closed w2) s1 = Suc (count_list (closed w) s1) \<and>
           \<not> contains (async_session_cache w2) (gck ''a'') \<and>
           contains (async_session_cache w2) (gck ''b'') \<and>
           get_cache_entry (async_session_cache w2) (gck ''b'') = (async_session_cache w2, Inr s2)"
proof -
  let ?c1 = "\<lparr>sc_size = 1, sc_data = [(gck ''a'', s1)]\<rparr>"
  let ?c2 = "\<lparr>sc_size = 1, sc_data = [(gck ''b'', s2)]\<rparr>"
  have 1: "cache (async_session_cache w) (gck ''a'') s1 = (?c1, Inr None)"
    by (subst cache_new_room) (simp_all add: assms SessionCache_init_def od_contains_def)
  have 2: "cache ?c1 (gck ''b'') s2 = (?c2, Inr (Some [(gck ''a'', s1)]))"
    using assms(1) by (subst cache_new_full) (auto simp: od_contains_def od_wf_def)
  have first: "cache_async_session gck close_raises w ''a'' s1 = (w\<lparr>async_session_cache := ?c1\<rparr>, Inr ())"
    by (simp add: cache_async_session_def 1)
  have second: "cache_async_session gck close_raises (w\<lparr>async_session_cache := ?c1\<rparr>) ''b'' s2 =
      (w\<lparr>async_session_cache := ?c2, closed := closed w @ [s1]\<rparr>,
       if close_raises s1 then Inl (CloseError s1) else Inr ())"
    by (simp add: cache_async_session_def 2)
  show ?thesis
    using assms(1)
    by (simp add: first second contains_def od_contains_def get_cache_entry_def od_getitem_def)
qed

theorem cache_async_session_capacity_1_witness:
  "(\<lambda>u. u) ''a'' \<noteq> (\<lambda>u. u) ''b'' \<and>
   async_session_cache (initial_state\<lparr>async_session_cache := SessionCache_init 1\<rparr>) = SessionCache_init 1 \<and>
   (\<exists>w1 w2 r.
      cache_async_session (\<lambda>u. u) (\<lambda>s. False)
        (initial_state\<lparr>async_session_cache := SessionCache_init 1\<rparr>) ''a'' 0 = (w1, Inr ()) \<and>
      cache_async_session (\<lambda>u. u) (\<lambda>s. False) w1 ''b'' 1 = (w2, r) \<and>
      r = Inr () \<and> closed w2 = [0] \<and>
      \<not> contains (async_session_cache w2) ''a'' \<and>
      contains (async_session_cache w2) ''b'' \<and>
      get_cache_entry (async_session_cache w2) ''b'' = (async_session_cache w2, Inr 1))"
proof -
  let ?w = "initial_state\<lparr>async_session_cache := SessionCache_init 1\<rparr>"
  have h1: "(\<lambda>u. u) ''a'' \<noteq> (\<lambda>u::string. u) ''b''" by simp
  have h2: "async_session_cache ?w = SessionCache_init 1" by simp
  have e: "closed ?w = []" by (simp add: initial_state_def)
  show ?thesis
    using h1 h2 cache_async_session_capacity_1 [OF h1 h2, of "\<lambda>s. False" 0 1]
    by (simp add: e) blast
qed

subsection \<open>A close that raises\<close>

text \<open>
  C7. When \<open>cache\<close> has evicted entries for the new session and the close of one of the
  evicted sessions raises, \<open>cache_async_session\<close> ends with the exception of a close
  that raised. The cache it leaves is the one \<open>cache\<close> returned: the new key is in it and
  reads as the new session, and none of the evicted keys is in it.
\<close>

theorem cache_async_session_close_failure:
  assumes "od_wf (sc_data (async_session_cache w))"
    and "cache (async_session_cache w) (gck endpoint_uri) s = (c', Inr (Some evicted_items))"
    and "(k, x) \<in> set evicted_items" and "close_raises x"
  shows "\<exists>w' y. cache_async_session gck close_raises w endpoint_uri s = (w', Inl (CloseError y)) \<and>
           close_raises y \<and> y \<in> snd ` set evicted_items \<and>
           async_session_cache w' = c' \<and>
           contains c' (gck endpoint_uri) \<and>
           get_cache_entry c' (gck endpoint_uri) = (c', Inr s) \<and>
           (\<forall>k' \<in> fst ` set evicted_items. \<not> contains c' k')"
proof -
  let ?c = "async_session_cache w" and ?key = "gck endpoint_uri"
  let ?m = "Suc (length (sc_data ?c)) - nat (sc_size ?c)"
  from close_evicted_raises
         [where close_raises = close_raises and log = "closed w", OF assms(3,4)]
  obtain y log' where cl: "close_evicted close_raises evicted_items (closed w) = (log', Inl (CloseError y))"
    and y: "close_raises y" "y \<in> snd ` set evicted_items"
    by blast
  have run: "cache_async_session gck close_raises w endpoint_uri s =
               (w\<lparr>async_session_cache := c', closed := log'\<rparr>, Inl (CloseError y))"
    by (simp add: cache_async_session_def assms(2) cl)
  from cache_then_resident [OF assms(2)]
  have res: "contains c' ?key" "get_cache_entry c' ?key = (c', Inr s)"
    by (simp_all add: contains_def get_cache_entry_def)
  from assms(2) have new: "\<not> od_contains (sc_data ?c) ?key"
    by (auto simp: cache_def split: if_splits)
  from assms(2) new have pos: "1 \<le> sc_size ?c"
    by (cases "1 \<le> sc_size ?c") (auto simp: cache_new_nonpos)
  from assms(2) new have full: "sc_size ?c \<le> int (length (sc_data ?c))"
    by (cases "sc_size ?c \<le> int (length (sc_data ?c))") (auto simp: cache_new_room)
  from assms(2) cache_new_full [OF new pos full assms(1), of s]
  have c': "sc_data c' = drop ?m (sc_data ?c) @ [(?key, s)]"
    and ev: "evicted_items = take ?m (sc_data ?c)"
    by auto
  have gone: "\<not> contains c' k'" if "k' \<in> fst ` set evicted_items" for k'
  proof -
    from that have t: "k' \<in> fst ` set (take ?m (sc_data ?c))" by (simp add: ev)
    with assms(1) have "k' \<notin> fst ` set (drop ?m (sc_data ?c))"
      by (rule take_drop_keys_disjoint)
    moreover from t have "od_contains (sc_data ?c) k'" by (rule key_of_take)
    with new have "k' \<noteq> ?key" by blast
    ultimately show ?thesis by (simp add: c' contains_def od_contains_def)
  qed
  from run y res gone show ?thesis by simp
qed

theorem cache_async_session_close_failure_witness:
  "cache_async_session (\<lambda>u. u) (\<lambda>s. s = 0)
     (initial_state\<lparr>async_session_cache := \<lparr>sc_size = 1, sc_data = [(''a'', 0)]\<rparr>\<rparr>) ''b'' 1 =
   (initial_state\<lparr>async_session_cache := \<lparr>sc_size = 1, sc_data = [(''b'', 1)]\<rparr>, closed := [0]\<rparr>,
    Inl (CloseError 0))"
proof -
  let ?w = "initial_state\<lparr>async_session_cache := \<lparr>sc_size = 1, sc_data = [(''a'', 0)]\<rparr>\<rparr>"
  let ?c' = "\<lparr>sc_size = 1, sc_data = [(''b'', 1::nat)]\<rparr>"
  have h1: "od_wf (sc_data (async_session_cache ?w))" by (simp add: od_wf_def)
  have h2: "cache (async_session_cache ?w) ((\<lambda>u. u) ''b'') 1 = (?c', Inr (Some [(''a'', 0)]))"
    by (simp add: cache_def od_contains_def evict_loop.simps od_popitem_first_def)
  have h3: "(''a'', 0::nat) \<in> set [(''a'', 0)]" by simp
  have h4: "(\<lambda>s::nat. s = 0) 0" by simp
  show ?thesis
    using cache_async_session_close_failure
            [where gck = "\<lambda>u. u" and endpoint_uri = "''b''" and close_raises = "\<lambda>s. s = 0",
             OF h1 h2 h3 h4]
    by (simp add: cache_async_session_def cache_def od_contains_def evict_loop.simps
          od_popitem_first_def initial_state_def)
qed

subsection \<open>The default endpoint\<close>

text \<open>
  C8. \<open>get_default_http_endpoint\<close> returns the value of the environment variable
  WEB3_HTTP_PROVIDER_URI as it is when the variable is set, and \<open>http://localhost:8545\<close>
  when it is not.
\<close>

theorem get_default_http_endpoint_override:
  "(env ''WEB3_HTTP_PROVIDER_URI'' = Some v \<longrightarrow> get_default_http_endpoint env = v) \<and>
   (env ''WEB3_HTTP_PROVIDER_URI'' = None \<longrightarrow> get_default_http_endpoint env = ''http://localhost:8545'')"
  by (simp add: get_default_http_endpoint_def environ_get_def)

theorem get_default_http_endpoint_override_witness:
  "get_default_http_endpoint [''WEB3_HTTP_PROVIDER_URI'' \<mapsto> ''http://node.example:9000'']
     = ''http://node.example:9000'' \<and>
   get_default_http_endpoint Map.empty = ''http://localhost:8545''"
  using get_default_http_endpoint_override
          [of "[''WEB3_HTTP_PROVIDER_URI'' \<mapsto> ''http://node.example:9000'']" "''http://node.example:9000''"]
        get_default_http_endpoint_override [of Map.empty "''x''"]
  by simp

subsection \<open>Asking twice for the same endpoint\<close>

text \<open>
  C9. \<open>get_session\<close> always returns. When the endpoint's key is in the synchronous cache
  it returns the session stored there and constructs none; otherwise it constructs one
  session, stores it at the key and returns it. Either way the session returned is the one
  stored at the key afterwards, and a second call right after returns the same session and
  changes nothing.

  \<open>get_async_session\<close> does the same whenever its first call returns: the session
  returned is the one stored at the key, it is the stored one on a hit and the single newly
  constructed one on a miss, and a second call right after returns the same session and
  changes nothing. The first call returns when \<open>cache\<close> returns for the new session and
  no close of an evicted session raises. When the key is new and the close of a session
  evicted for it raises, the first call raises instead of returning a session, with the
  new session already stored.
\<close>

theorem get_session_twice:
  "(lru_contains (session_cache w) (gck uri) \<longrightarrow>
      (\<exists>s w1. map_of (lru_items (session_cache w)) (gck uri) = Some s \<and>
         get_session gck w uri = (w1, Inr s) \<and>
         sessions_constructed w1 = sessions_constructed w \<and>
         map_of (lru_items (session_cache w1)) (gck uri) = Some s \<and>
         get_session gck w1 uri = (w1, Inr s))) \<and>
   (\<not> lru_contains (session_cache w) (gck uri) \<longrightarrow>
      (\<exists>w1. get_session gck w uri = (w1, Inr (sessions_constructed w)) \<and>
         sessions_constructed w1 = Suc (sessions_constructed w) \<and>
         map_of (lru_items (session_cache w1)) (gck uri) = Some (sessions_constructed w) \<and>
         get_session gck w1 uri = (w1, Inr (sessions_constructed w)))) \<and>
   (\<forall>w1 s. get_async_session gck close_raises w uri = (w1, Inr s) \<longrightarrow>
      contains (async_session_cache w1) (gck uri) \<and>
      get_cache_entry (async_session_cache w1) (gck uri) = (async_session_cache w1, Inr s) \<and>
      (if contains (async_session_cache w) (gck uri) then w1 = w
       else s = sessions_constructed w \<and>
            sessions_constructed w1 = Suc (sessions_constructed w)) \<and>
      get_async_session gck close_raises w1 uri = (w1, Inr s)) \<and>
   (cache (async_session_cache w) (gck uri) (sessions_constructed w) = (c', Inr ev) \<and>
    (\<forall>x \<in> snd ` set (case ev of None \<Rightarrow> [] | Some e \<Rightarrow> e). \<not> close_raises x) \<longrightarrow>
      (\<exists>w1 s. get_async_session gck close_raises w uri = (w1, Inr s))) \<and>
   (\<not> contains (async_session_cache w) (gck uri) \<and>
    cache (async_session_cache w) (gck uri) (sessions_constructed w) = (c', Inr (Some e)) \<and>
    (k, x) \<in> set e \<and> close_raises x \<longrightarrow>
      (\<exists>w1 y. get_async_session gck close_raises w uri = (w1, Inl (CloseError y)) \<and>
         close_raises y \<and> async_session_cache w1 = c'))"
proof (intro conjI allI impI)
  assume "lru_contains (session_cache w) (gck uri)"
  then have "map_of (lru_items (session_cache w)) (gck uri) \<noteq> None"
    by (simp add: lru_contains_def od_contains_def map_of_eq_None_iff)
  then obtain s where s: "map_of (lru_items (session_cache w)) (gck uri) = Some s" by blast
  from get_session_on_hit [where gck = gck and uri = uri, OF s] s
  show "\<exists>s w1. map_of (lru_items (session_cache w)) (gck uri) = Some s \<and>
         get_session gck w uri = (w1, Inr s) \<and>
         sessions_constructed w1 = sessions_constructed w \<and>
         map_of (lru_items (session_cache w1)) (gck uri) = Some s \<and>
         get_session gck w1 uri = (w1, Inr s)"
    by blast
next
  assume "\<not> lru_contains (session_cache w) (gck uri)"
  then show "\<exists>w1. get_session gck w uri = (w1, Inr (sessions_constructed w)) \<and>
         sessions_constructed w1 = Suc (sessions_constructed w) \<and>
         map_of (lru_items (session_cache w1)) (gck uri) = Some (sessions_constructed w) \<and>
         get_session gck w1 uri = (w1, Inr (sessions_constructed w))"
    by (rule get_session_on_miss [where gck = gck and uri = uri])
next
  fix w1 s
  assume run: "get_async_session gck close_raises w uri = (w1, Inr s)"
  note res = get_async_session_resident [where gck = gck and uri = uri, OF run]
  from res show "contains (async_session_cache w1) (gck uri)" by simp
  from res show "get_cache_entry (async_session_cache w1) (gck uri) = (async_session_cache w1, Inr s)"
    by (simp add: get_cache_entry_def)
  from res show "if contains (async_session_cache w) (gck uri) then w1 = w
       else s = sessions_constructed w \<and> sessions_constructed w1 = Suc (sessions_constructed w)"
    by simp
  from res show "get_async_session gck close_raises w1 uri = (w1, Inr s)"
    by (simp add: get_async_session_hit)
next
  assume "cache (async_session_cache w) (gck uri) (sessions_constructed w) = (c', Inr ev) \<and>
    (\<forall>x \<in> snd ` set (case ev of None \<Rightarrow> [] | Some e \<Rightarrow> e). \<not> close_raises x)"
  then show "\<exists>w1 s. get_async_session gck close_raises w uri = (w1, Inr s)"
    using get_async_session_quiet [of w gck uri c' ev close_raises] by blast
next
  assume a: "\<not> contains (async_session_cache w) (gck uri) \<and>
    cache (async_session_cache w) (gck uri) (sessions_constructed w) = (c', Inr (Some e)) \<and>
    (k, x) \<in> set e \<and> close_raises x"
  then have "\<exists>w1 y. get_async_session gck close_raises w uri = (w1, Inl (CloseError y)) \<and>
           close_raises y \<and> async_session_cache w1 = c' \<and>
           sessions_constructed w1 = Suc (sessions_constructed w)"
    by (intro get_async_session_close_raises [where k = k and x = x and e = e]) simp_all
  then show "\<exists>w1 y. get_async_session gck close_raises w uri = (w1, Inl (CloseError y)) \<and>
         close_raises y \<and> async_session_cache w1 = c'"
    by blast
qed

theorem get_async_session_twice_counterexample:
  "get_async_session id ((=) 0)
     (initial_state
        \<lparr>async_session_cache :=
           \<lparr>sc_size = 20,
            sc_data =
              [(''e00'', 0), (''e01'', 1), (''e02'', 2), (''e03'', 3), (''e04'', 4),
               (''e05'', 5), (''e06'', 6), (''e07'', 7), (''e08'', 8), (''e09'', 9),
               (''e10'', 10), (''e11'', 11), (''e12'', 12), (''e13'', 13), (''e14'', 14),
               (''e15'', 15), (''e16'', 16), (''e17'', 17), (''e18'', 18), (''e19'', 19)]\<rparr>,
         sessions_constructed := 20\<rparr>)
     ''e20'' =
   (initial_state
      \<lparr>async_session_cache :=
         \<lparr>sc_size = 20,
          sc_data =
            [(''e01'', 1), (''e02'', 2), (''e03'', 3), (''e04'', 4),
             (''e05'', 5), (''e06'', 6), (''e07'', 7), (''e08'', 8), (''e09'', 9),
             (''e10'', 10), (''e11'', 11), (''e12'', 12), (''e13'', 13), (''e14'', 14),
             (''e15'', 15), (''e16'', 16), (''e17'', 17), (''e18'', 18), (''e19'', 19),
             (''e20'', 20)]\<rparr>,
       sessions_constructed := 21, closed := [0]\<rparr>,
    Inl (CloseError 0)) \<and>
   get_async_session id ((=) 0)
     (initial_state
        \<lparr>async_session_cache :=
           \<lparr>sc_size = 20,
            sc_data =
              [(''e01'', 1), (''e02'', 2), (''e03'', 3), (''e04'', 4),
               (''e05'', 5), (''e06'', 6), (''e07'', 7), (''e08'', 8), (''e09'', 9),
               (''e10'', 10), (''e11'', 11), (''e12'', 12), (''e13'', 13), (''e14'', 14),
               (''e15'', 15), (''e16'', 16), (''e17'', 17), (''e18'', 18), (''e19'', 19),
               (''e20'', 20)]\<rparr>,
         sessions_constructed := 21, closed := [0]\<rparr>)
     ''e20'' =
   (initial_state
      \<lparr>async_session_cache :=
         \<lparr>sc_size = 20,
          sc_data =
            [(''e01'', 1), (''e02'', 2), (''e03'', 3), (''e04'', 4),
             (''e05'', 5), (''e06'', 6), (''e07'', 7), (''e08'', 8), (''e09'', 9),
             (''e10'', 10), (''e11'', 11), (''e12'', 12), (''e13'', 13), (''e14'', 14),
             (''e15'', 15), (''e16'', 16), (''e17'', 17), (''e18'', 18), (''e19'', 19),
             (''e20'', 20)]\<rparr>,
       sessions_constructed := 21, closed := [0]\<rparr>,
    Inr 20)"
proof -
  let ?d = "[(''e00'', 0), (''e01'', 1), (''e02'', 2), (''e03'', 3), (''e04'', 4),
             (''e05'', 5), (''e06'', 6), (''e07'', 7), (''e08'', 8), (''e09'', 9),
             (''e10'', 10), (''e11'', 11), (''e12'', 12), (''e13'', 13), (''e14'', 14),
             (''e15'', 15), (''e16'', 16), (''e17'', 17), (''e18'', 18), (''e19'', 19::nat)]"
  have new: "\<not> od_contains ?d ''e20''" by (simp add: od_contains_def)
  have c: "cache \<lparr>sc_size = 20, sc_data = ?d\<rparr> ''e20'' 20 =
             (\<lparr>sc_size = 20, sc_data = tl ?d @ [(''e20'', 20)]\<rparr>, Inr (Some [(''e00'', 0)]))"
    using new by (subst cache_new_full) (simp_all add: od_wf_def)
  have first: "get_async_session id ((=) 0)
      (initial_state\<lparr>async_session_cache := \<lparr>sc_size = 20, sc_data = ?d\<rparr>,
                     sessions_constructed := 20\<rparr>) ''e20'' =
      (initial_state\<lparr>async_session_cache := \<lparr>sc_size = 20, sc_data = tl ?d @ [(''e20'', 20)]\<rparr>,
                     sessions_constructed := 21, closed := [0]\<rparr>, Inl (CloseError 0))"
    using new
    by (simp add: Let_def get_async_session_def contains_def new_session_def
          cache_async_session_def c [simplified] initial_state_def)
  have second: "get_async_session id ((=) 0)
      (initial_state\<lparr>async_session_cache := \<lparr>sc_size = 20, sc_data = tl ?d @ [(''e20'', 20)]\<rparr>,
                     sessions_constructed := 21, closed := [0]\<rparr>) ''e20'' =
      (initial_state\<lparr>async_session_cache := \<lparr>sc_size = 20, sc_data = tl ?d @ [(''e20'', 20)]\<rparr>,
                     sessions_constructed := 21, closed := [0]\<rparr>, Inr 20)"
    by (simp add: Let_def get_async_session_def contains_def od_contains_def
          async_session_cache_entry_def get_cache_entry_def od_getitem_def)
  from first second show ?thesis by simp
qed

theorem get_session_twice_witness:
  "get_session (\<lambda>u. u)
     \<lparr>session_cache = \<lparr>lru_size = 8, lru_touch = True, lru_items = [(''a'', 3), (''c'', 5)]\<rparr>,
       async_session_cache = \<lparr>sc_size = 20, sc_data = [(''a'', 7)]\<rparr>,
       sessions_constructed = 8, closed = []\<rparr> ''a'' =
    (\<lparr>session_cache = \<lparr>lru_size = 8, lru_touch = True, lru_items = [(''c'', 5), (''a'', 3)]\<rparr>,
       async_session_cache = \<lparr>sc_size = 20, sc_data = [(''a'', 7)]\<rparr>,
       sessions_constructed = 8, closed = []\<rparr>, Inr 3) \<and>
   get_session (\<lambda>u. u)
     \<lparr>session_cache = \<lparr>lru_size = 8, lru_touch = True, lru_items = [(''c'', 5), (''a'', 3)]\<rparr>,
       async_session_cache = \<lparr>sc_size = 20, sc_data = [(''a'', 7)]\<rparr>,
       sessions_constructed = 8, closed = []\<rparr> ''a'' =
    (\<lparr>session_cache = \<lparr>lru_size = 8, lru_touch = True, lru_items = [(''c'', 5), (''a'', 3)]\<rparr>,
       async_session_cache = \<lparr>sc_size = 20, sc_data = [(''a'', 7)]\<rparr>,
       sessions_constructed = 8, closed = []\<rparr>, Inr 3) \<and>
   get_session (\<lambda>u. u)
     \<lparr>session_cache = \<lparr>lru_size = 8, lru_touch = True, lru_items = [(''a'', 3), (''c'', 5)]\<rparr>,
       async_session_cache = \<lparr>sc_size = 20, sc_data = [(''a'', 7)]\<rparr>,
       sessions_constructed = 8, closed = []\<rparr> ''b'' =
    (\<lparr>session_cache = \<lparr>lru_size = 8, lru_touch = True, lru_items = [(''a'', 3), (''c'', 5), (''b'', 8)]\<rparr>,
       async_session_cache = \<lparr>sc_size = 20, sc_data = [(''a'', 7)]\<rparr>,
       sessions_constructed = 9, closed = []\<rparr>, Inr 8) \<and>
   get_session (\<lambda>u. u)
     \<lparr>session_cache = \<lparr>lru_size = 8, lru_touch = True, lru_items = [(''a'', 3), (''c'', 5), (''b'', 8)]\<rparr>,
       async_session_cache = \<lparr>sc_size = 20, sc_data = [(''a'', 7)]\<rparr>,
       sessions_constructed = 9, closed = []\<rparr> ''b'' =
    (\<lparr>session_cache = \<lparr>lru_size = 8, lru_touch = True, lru_items = [(''a'', 3), (''c'', 5), (''b'', 8)]\<rparr>,
       async_session_cache = \<lparr>sc_size = 20, sc_data = [(''a'', 7)]\<rparr>,
       sessions_constructed = 9, closed = []\<rparr>, Inr 8) \<and>
   get_async_session (\<lambda>u. u) (\<lambda>s. False)
     \<lparr>session_cache = \<lparr>lru_size = 8, lru_touch = True, lru_items = [(''a'', 3), (''c'', 5)]\<rparr>,
       async_session_cache = \<lparr>sc_size = 20, sc_data = [(''a'', 7)]\<rparr>,
       sessions_constructed = 8, closed = []\<rparr> ''a'' =
    (\<lparr>session_cache = \<lparr>lru_size = 8, lru_touch = True, lru_items = [(''a'', 3), (''c'', 5)]\<rparr>,
       async_session_cache = \<lparr>sc_size = 20, sc_data = [(''a'', 7)]\<rparr>,
       sessions_constructed = 8, closed = []\<rparr>, Inr 7) \<and>
   get_async_session (\<lambda>u. u) (\<lambda>s. False)
     \<lparr>session_cache = \<lparr>lru_size = 8, lru_touch = True, lru_items = [(''a'', 3), (''c'', 5)]\<rparr>,
       async_session_cache = \<lparr>sc_size = 20, sc_data = [(''a'', 7)]\<rparr>,
       sessions_constructed = 8, closed = []\<rparr> ''b'' =
    (\<lparr>session_cache = \<lparr>lru_size = 8, lru_touch = True, lru_items = [(''a'', 3), (''c'', 5)]\<rparr>,
       async_session_cache = \<lparr>sc_size = 20, sc_data = [(''a'', 7), (''b'', 8)]\<rparr>,
       sessions_constructed = 9, closed = []\<rparr>, Inr 8) \<and>
   get_async_session (\<lambda>u. u) (\<lambda>s. False)
     \<lparr>session_cache = \<lparr>lru_size = 8, lru_touch = True, lru_items = [(''a'', 3), (''c'', 5)]\<rparr>,
       async_session_cache = \<lparr>sc_size = 20, sc_data = [(''a'', 7), (''b'', 8)]\<rparr>,
       sessions_constructed = 9, closed = []\<rparr> ''b'' =
    (\<lparr>session_cache = \<lparr>lru_size = 8, lru_touch = True, lru_items = [(''a'', 3), (''c'', 5)]\<rparr>,
       async_session_cache = \<lparr>sc_size = 20, sc_data = [(''a'', 7), (''b'', 8)]\<rparr>,
       sessions_constructed = 9, closed = []\<rparr>, Inr 8) \<and>
   get_async_session (\<lambda>u. u) (\<lambda>s. s = 7)
     \<lparr>session_cache = \<lparr>lru_size = 8, lru_touch = True, lru_items = [(''a'', 3), (''c'', 5)]\<rparr>,
       async_session_cache = \<lparr>sc_size = 1, sc_data = [(''a'', 7)]\<rparr>,
       sessions_constructed = 8, closed = []\<rparr> ''b'' =
    (\<lparr>session_cache = \<lparr>lru_size = 8, lru_touch = True, lru_items = [(''a'', 3), (''c'', 5)]\<rparr>,
       async_session_cache = \<lparr>sc_size = 1, sc_data = [(''b'', 8)]\<rparr>,
       sessions_constructed = 9, closed = [7]\<rparr>, Inl (CloseError 7))"
proof -
  let ?w0 = "\<lparr>session_cache = \<lparr>lru_size = 8, lru_touch = True, lru_items = [(''a'', 3), (''c'', 5)]\<rparr>,
       async_session_cache = \<lparr>sc_size = 20, sc_data = [(''a'', 7)]\<rparr>,
       sessions_constructed = 8, closed = []\<rparr>"
  let ?w3 = "\<lparr>session_cache = \<lparr>lru_size = 8, lru_touch = True, lru_items = [(''a'', 3), (''c'', 5)]\<rparr>,
       async_session_cache = \<lparr>sc_size = 1, sc_data = [(''a'', 7)]\<rparr>,
       sessions_constructed = 8, closed = []\<rparr>"
  have sh1: "get_session (\<lambda>u. u)
     \<lparr>session_cache = \<lparr>lru_size = 8, lru_touch = True, lru_items = [(''a'', 3), (''c'', 5)]\<rparr>,
       async_session_cache = \<lparr>sc_size = 20, sc_data = [(''a'', 7)]\<rparr>,
       sessions_constructed = 8, closed = []\<rparr> ''a'' =
    (\<lparr>session_cache = \<lparr>lru_size = 8, lru_touch = True, lru_items = [(''c'', 5), (''a'', 3)]\<rparr>,
       async_session_cache = \<lparr>sc_size = 20, sc_data = [(''a'', 7)]\<rparr>,
       sessions_constructed = 8, closed = []\<rparr>, Inr 3)"
    by (simp add: Let_def get_session_def lru_contains_def od_contains_def session_cache_getitem_def
          lru_getitem_def od_remove_def new_session_def session_cache_setitem_def lru_setitem_def
          lru_kept_def)
  have sm1: "get_session (\<lambda>u. u)
     \<lparr>session_cache = \<lparr>lru_size = 8, lru_touch = True, lru_items = [(''a'', 3), (''c'', 5)]\<rparr>,
       async_session_cache = \<lparr>sc_size = 20, sc_data = [(''a'', 7)]\<rparr>,
       sessions_constructed = 8, closed = []\<rparr> ''b'' =
    (\<lparr>session_cache = \<lparr>lru_size = 8, lru_touch = True, lru_items = [(''a'', 3), (''c'', 5), (''b'', 8)]\<rparr>,
       async_session_cache = \<lparr>sc_size = 20, sc_data = [(''a'', 7)]\<rparr>,
       sessions_constructed = 9, closed = []\<rparr>, Inr 8)"
    by (simp add: Let_def get_session_def lru_contains_def od_contains_def session_cache_getitem_def
          lru_getitem_def od_remove_def new_session_def session_cache_setitem_def lru_setitem_def
          lru_kept_def)
  have ah1: "get_async_session (\<lambda>u. u) (\<lambda>s. False)
     \<lparr>session_cache = \<lparr>lru_size = 8, lru_touch = True, lru_items = [(''a'', 3), (''c'', 5)]\<rparr>,
       async_session_cache = \<lparr>sc_size = 20, sc_data = [(''a'', 7)]\<rparr>,
       sessions_constructed = 8, closed = []\<rparr> ''a'' =
    (\<lparr>session_cache = \<lparr>lru_size = 8, lru_touch = True, lru_items = [(''a'', 3), (''c'', 5)]\<rparr>,
       async_session_cache = \<lparr>sc_size = 20, sc_data = [(''a'', 7)]\<rparr>,
       sessions_constructed = 8, closed = []\<rparr>, Inr 7)"
    by (simp add: Let_def get_async_session_def contains_def od_contains_def new_session_def
          cache_async_session_def cache_def evict_loop.simps od_popitem_first_def
          async_session_cache_entry_def get_cache_entry_def od_getitem_def)
  have am1: "get_async_session (\<lambda>u. u) (\<lambda>s. False)
     \<lparr>session_cache = \<lparr>lru_size = 8, lru_touch = True, lru_items = [(''a'', 3), (''c'', 5)]\<rparr>,
       async_session_cache = \<lparr>sc_size = 20, sc_data = [(''a'', 7)]\<rparr>,
       sessions_constructed = 8, closed = []\<rparr> ''b'' =
    (\<lparr>session_cache = \<lparr>lru_size = 8, lru_touch = True, lru_items = [(''a'', 3), (''c'', 5)]\<rparr>,
       async_session_cache = \<lparr>sc_size = 20, sc_data = [(''a'', 7), (''b'', 8)]\<rparr>,
       sessions_constructed = 9, closed = []\<rparr>, Inr 8)"
    by (simp add: Let_def get_async_session_def contains_def od_contains_def new_session_def
          cache_async_session_def cache_def evict_loop.simps od_popitem_first_def
          async_session_cache_entry_def get_cache_entry_def od_getitem_def)
  have ar1: "get_async_session (\<lambda>u. u) (\<lambda>s. s = 7)
     \<lparr>session_cache = \<lparr>lru_size = 8, lru_touch = True, lru_items = [(''a'', 3), (''c'', 5)]\<rparr>,
       async_session_cache = \<lparr>sc_size = 1, sc_data = [(''a'', 7)]\<rparr>,
       sessions_constructed = 8, closed = []\<rparr> ''b'' =
    (\<lparr>session_cache = \<lparr>lru_size = 8, lru_touch = True, lru_items = [(''a'', 3), (''c'', 5)]\<rparr>,
       async_session_cache = \<lparr>sc_size = 1, sc_data = [(''b'', 8)]\<rparr>,
       sessions_constructed = 9, closed = [7]\<rparr>, Inl (CloseError 7))"
    by (simp add: Let_def get_async_session_def contains_def od_contains_def new_session_def
          cache_async_session_def cache_def evict_loop.simps od_popitem_first_def
          async_session_cache_entry_def get_cache_entry_def od_getitem_def)
  have hit: "lru_contains (session_cache ?w0) ((\<lambda>u. u) ''a'')"
    by (simp add: lru_contains_def od_contains_def)
  have miss: "\<not> lru_contains (session_cache ?w0) ((\<lambda>u. u) ''b'')"
    by (simp add: lru_contains_def od_contains_def)
  note T1 = get_session_twice [where w = ?w0 and gck = "(\<lambda>u. u)" and uri = "''a''"]
  from T1 [THEN conjunct1, rule_format, OF hit]
  obtain s w1 where "get_session (\<lambda>u. u) ?w0 ''a'' = (w1, Inr s)"
    and "get_session (\<lambda>u. u) w1 ''a'' = (w1, Inr s)"
    by blast
  with sh1 have sh2: "get_session (\<lambda>u. u)
     \<lparr>session_cache = \<lparr>lru_size = 8, lru_touch = True, lru_items = [(''c'', 5), (''a'', 3)]\<rparr>,
       async_session_cache = \<lparr>sc_size = 20, sc_data = [(''a'', 7)]\<rparr>,
       sessions_constructed = 8, closed = []\<rparr> ''a'' =
    (\<lparr>session_cache = \<lparr>lru_size = 8, lru_touch = True, lru_items = [(''c'', 5), (''a'', 3)]\<rparr>,
       async_session_cache = \<lparr>sc_size = 20, sc_data = [(''a'', 7)]\<rparr>,
       sessions_constructed = 8, closed = []\<rparr>, Inr 3)"
    by simp
  note T2 = get_session_twice
              [where w = ?w0 and gck = "(\<lambda>u. u)" and uri = "''b''" and close_raises = "(\<lambda>s. False)"]
  from T2 [THEN conjunct2, THEN conjunct1, rule_format, OF miss]
  obtain w2 where "get_session (\<lambda>u. u) ?w0 ''b'' = (w2, Inr (sessions_constructed ?w0))"
    and "get_session (\<lambda>u. u) w2 ''b'' = (w2, Inr (sessions_constructed ?w0))"
    by blast
  with sm1 have sm2: "get_session (\<lambda>u. u)
     \<lparr>session_cache = \<lparr>lru_size = 8, lru_touch = True, lru_items = [(''a'', 3), (''c'', 5), (''b'', 8)]\<rparr>,
       async_session_cache = \<lparr>sc_size = 20, sc_data = [(''a'', 7)]\<rparr>,
       sessions_constructed = 9, closed = []\<rparr> ''b'' =
    (\<lparr>session_cache = \<lparr>lru_size = 8, lru_touch = True, lru_items = [(''a'', 3), (''c'', 5), (''b'', 8)]\<rparr>,
       async_session_cache = \<lparr>sc_size = 20, sc_data = [(''a'', 7)]\<rparr>,
       sessions_constructed = 9, closed = []\<rparr>, Inr 8)"
    by simp
  from T2 [THEN conjunct2, THEN conjunct2, THEN conjunct1, rule_format, OF am1]
  have am2: "get_async_session (\<lambda>u. u) (\<lambda>s. False)
     \<lparr>session_cache = \<lparr>lru_size = 8, lru_touch = True, lru_items = [(''a'', 3), (''c'', 5)]\<rparr>,
       async_session_cache = \<lparr>sc_size = 20, sc_data = [(''a'', 7), (''b'', 8)]\<rparr>,
       sessions_constructed = 9, closed = []\<rparr> ''b'' =
    (\<lparr>session_cache = \<lparr>lru_size = 8, lru_touch = True, lru_items = [(''a'', 3), (''c'', 5)]\<rparr>,
       async_session_cache = \<lparr>sc_size = 20, sc_data = [(''a'', 7), (''b'', 8)]\<rparr>,
       sessions_constructed = 9, closed = []\<rparr>, Inr 8)"
    by (rule conjunct2 [THEN conjunct2, THEN conjunct2])
  have new: "\<not> contains (async_session_cache ?w3) ((\<lambda>u. u) ''b'')"
    by (simp add: contains_def od_contains_def)
  have ev: "cache (async_session_cache ?w3) ((\<lambda>u. u) ''b'') (sessions_constructed ?w3) =
      (\<lparr>sc_size = 1, sc_data = [(''b'', 8)]\<rparr>, Inr (Some [(''a'', 7)]))"
    by (simp add: cache_def od_contains_def evict_loop.simps od_popitem_first_def)
  have mem: "(''a'', 7) \<in> set [(''a'', 7::nat)]" by simp
  have r7: "(\<lambda>s. s = 7) 7" by simp
  note T3 = get_session_twice
              [where w = ?w3 and gck = "(\<lambda>u. u)" and uri = "''b''" and close_raises = "(\<lambda>s. s = 7)"
                 and c' = "\<lparr>sc_size = 1, sc_data = [(''b'', 8)]\<rparr>" and e = "[(''a'', 7)]"
                 and k = "''a''" and x = 7]
  from T3 [THEN conjunct2, THEN conjunct2, THEN conjunct2, THEN conjunct2, rule_format,
           OF conjI [OF new conjI [OF ev conjI [OF mem r7]]]]
  obtain w4 y where "get_async_session (\<lambda>u. u) (\<lambda>s. s = 7) ?w3 ''b'' = (w4, Inl (CloseError y))"
    by blast
  with ar1 have "y = 7" by simp
  from sh1 sh2 sm1 sm2 ah1 am1 am2 ar1 show ?thesis
    by (intro conjI)
qed

subsection \<open>When cache raises\<close>

text \<open>
  C10. \<open>SessionCache.cache\<close> returns, without raising, on every cache whose size is at
  least 1, whatever it holds and whatever key and value it is given. The bound is needed:
  on a cache of size 0 or less that holds nothing, the key is new, the loop condition
  holds and \<open>popitem\<close> on the empty dictionary raises KeyError. On a dictionary that is
  not empty, \<open>popitem\<close> itself does not raise.
\<close>

theorem cache_returns_size_pos:
  "(1 \<le> sc_size c \<longrightarrow> (\<exists>c' ev. cache c key val = (c', Inr ev))) \<and>
   (sc_size c \<le> 0 \<and> sc_data c = [] \<longrightarrow> cache c key val = (c, Inl KeyError)) \<and>
   (sc_data c \<noteq> [] \<longrightarrow> (\<exists>kv d. od_popitem_first (sc_data c) = Inr (kv, d)))"
proof (intro conjI impI)
  assume "1 \<le> sc_size c"
  then show "\<exists>c' ev. cache c key val = (c', Inr ev)" by (rule cache_returns)
next
  assume "sc_size c \<le> 0 \<and> sc_data c = []"
  then show "cache c key val = (c, Inl KeyError)"
    by (simp add: cache_new_nonpos od_contains_def)
next
  assume "sc_data c \<noteq> []"
  then show "\<exists>kv d. od_popitem_first (sc_data c) = Inr (kv, d)"
    by (cases "sc_data c") (simp_all add: od_popitem_first_def)
qed

theorem cache_returns_size_pos_witness:
  "(\<exists>c' ev. cache \<lparr>sc_size = 1, sc_data = [(''b'', 3)]\<rparr> ''a'' (7::nat) = (c', Inr ev)) \<and>
   cache \<lparr>sc_size = 0, sc_data = []\<rparr> ''a'' (7::nat) = (\<lparr>sc_size = 0, sc_data = []\<rparr>, Inl KeyError) \<and>
   (\<exists>kv d. od_popitem_first [(''b'', 3::nat)] = Inr (kv, d))"
  using cache_returns_size_pos [of "\<lparr>sc_size = 1, sc_data = [(''b'', 3)]\<rparr>" "''a''" "7::nat"]
        cache_returns_size_pos [of "\<lparr>sc_size = 0, sc_data = []\<rparr>" "''a''" "7::nat"]
  by simp

end
